theory Spec2Isabelle
  imports Main
begin

section \<open>Data model (types.ts)\<close>

text \<open>
  \<^verbatim>\<open>Item = { id: string; content: string; slotId?: string }\<close> and
  \<^verbatim>\<open>Slot = { id: string; name: string; items: Item[] }\<close>.
  Both types have a field \<open>id\<close>, and \<open>id\<close> is a constant of HOL, so the fields carry
  the type as a suffix. An absent \<open>slotId\<close> is \<open>None\<close>, and so is one that a handler
  sets to \<open>undefined\<close>: the two read the same.
\<close>

record Item =
  id_item :: string
  content :: string
  slotId :: "string option"

record Slot =
  id_slot :: string
  name_slot :: string
  items_slot :: "Item list"

text \<open>
  The two options imported from \<open>./const\<close>. Their values are a deployment's choice, so
  every function that reads them takes them as a parameter.
  \<open>MAX_ITEMS_PER_SLOT\<close> is an integer: the comparison with a length is made in \<open>int\<close>
  so that a zero or negative setting has its meaning.
\<close>

record Config =
  ENABLE_SLOT_LIMIT :: bool
  MAX_ITEMS_PER_SLOT :: int

text \<open>
  The three \<open>useState\<close> cells of the component. Every handler runs to completion on
  the state of the last render, so the value a handler reads from its closure
  (\<open>items\<close>, \<open>slots\<close>) and the value its functional update receives (\<open>prevItems\<close>,
  \<open>prevSlots\<close>) are the same.
\<close>

record State =
  items :: "Item list"
  slots :: "Slot list"
  activeItem :: "Item option"

text \<open>
  What a handler reads of a drag event: the id of the dragged element and the drop
  target. \<open>over\<close> is \<open>null\<close> (\<open>None\<close>) or a droppable whose data either has type
  \<open>"slot"\<close> and carries the slot it was rendered from, or is anything else.
\<close>

datatype Over = OverSlot Slot | OverOther

record DragEvent =
  active :: string
  over :: "Over option"

section \<open>Number to string\<close>

text \<open>
  The template literals \<^verbatim>\<open>`slot-${n}`\<close> and \<^verbatim>\<open>`Slot ${n}`\<close> print the number \<open>n\<close>,
  which is a length plus 1 or 2: a non-negative integer below \<open>2^32 + 2\<close>, which
  JavaScript prints in decimal without leading zeros.
\<close>

definition digit_char :: "nat \<Rightarrow> char" where
  "digit_char d = ''0123456789'' ! d"

fun toString :: "nat \<Rightarrow> string" where
  "toString n =
     (if n < 10 then [digit_char n]
      else toString (n div 10) @ [digit_char (n mod 10)])"

declare toString.simps [simp del]

section \<open>The component (Component)\<close>

definition initialItems :: "Item list" where
  "initialItems =
     [\<lparr>id_item = ''1'', content = ''Task 1'', slotId = None\<rparr>,
      \<lparr>id_item = ''2'', content = ''Task 2'', slotId = None\<rparr>,
      \<lparr>id_item = ''3'', content = ''Task 3'', slotId = None\<rparr>,
      \<lparr>id_item = ''4'', content = ''Task 4'', slotId = None\<rparr>,
      \<lparr>id_item = ''5'', content = ''Task 5'', slotId = None\<rparr>,
      \<lparr>id_item = ''6'', content = ''Task 6'', slotId = None\<rparr>,
      \<lparr>id_item = ''7'', content = ''Task 7'', slotId = None\<rparr>,
      \<lparr>id_item = ''8'', content = ''Task 8'', slotId = None\<rparr>,
      \<lparr>id_item = ''9'', content = ''Task 9'', slotId = None\<rparr>,
      \<lparr>id_item = ''10'', content = ''Task 10'', slotId = None\<rparr>]"

definition initialState :: State where
  "initialState =
     \<lparr>items = initialItems,
      slots = [\<lparr>id_slot = ''slot-1'', name_slot = ''Slot 1'', items_slot = []\<rparr>,
               \<lparr>id_slot = ''slot-2'', name_slot = ''Slot 2'', items_slot = []\<rparr>],
      activeItem = None\<rparr>"

text \<open>\<open>unassignedItems\<close>: \<open>!item.slotId\<close> holds for an absent and for an empty \<open>slotId\<close>.\<close>

definition unassignedItems :: "State \<Rightarrow> Item list" where
  "unassignedItems st =
     filter (\<lambda>item. slotId item = None \<or> slotId item = Some []) (items st)"

definition handleDragStart :: "DragEvent \<Rightarrow> State \<Rightarrow> State" where
  "handleDragStart event st =
     (case find (\<lambda>item. id_item item = active event) (items st) of
        Some item \<Rightarrow> st\<lparr>activeItem := Some item\<rparr>
      | None \<Rightarrow> st)"

text \<open>
  The function \<open>handleDragEnd\<close> maps over \<open>prevSlots\<close>: the target slot gets the item
  appended unless it holds it already or is full; every other slot loses it.
\<close>

definition updateSlot :: "Config \<Rightarrow> Item \<Rightarrow> Slot \<Rightarrow> Slot \<Rightarrow> Slot" where
  "updateSlot cfg activeItem' targetSlot slot =
     (if id_slot slot = id_slot targetSlot then
        (let itemExists =
               list_ex (\<lambda>item. id_item item = id_item activeItem') (items_slot slot)
         in if \<not> itemExists then
              (if ENABLE_SLOT_LIMIT cfg \<and>
                  int (length (items_slot slot)) \<ge> MAX_ITEMS_PER_SLOT cfg
               then slot
               else slot\<lparr>items_slot :=
                      items_slot slot @ [activeItem'\<lparr>slotId := Some (id_slot targetSlot)\<rparr>]\<rparr>)
            else slot)
      else slot\<lparr>items_slot :=
             filter (\<lambda>item. id_item item \<noteq> id_item activeItem') (items_slot slot)\<rparr>)"

definition handleDragEnd :: "Config \<Rightarrow> DragEvent \<Rightarrow> State \<Rightarrow> State" where
  "handleDragEnd cfg event st =
     (let st0 = st\<lparr>activeItem := None\<rparr> in
      case over event of
        None \<Rightarrow> st0
      | Some ov \<Rightarrow>
          (case find (\<lambda>item. id_item item = active event) (items st) of
             None \<Rightarrow> st0
           | Some activeItem' \<Rightarrow>
               (case ov of
                  OverSlot targetSlot \<Rightarrow>
                    st0\<lparr>items :=
                          map (\<lambda>item. if id_item item = id_item activeItem'
                                       then item\<lparr>slotId := Some (id_slot targetSlot)\<rparr>
                                       else item) (items st),
                        slots := map (updateSlot cfg activeItem' targetSlot) (slots st)\<rparr>
                | OverOther \<Rightarrow> st0)))"

definition addMoreSlots :: "State \<Rightarrow> State" where
  "addMoreSlots st =
     (let currentSlotCount = length (slots st);
          newSlots =
            [\<lparr>id_slot = ''slot-'' @ toString (currentSlotCount + 1),
              name_slot = ''Slot '' @ toString (currentSlotCount + 1),
              items_slot = []\<rparr>,
             \<lparr>id_slot = ''slot-'' @ toString (currentSlotCount + 2),
              name_slot = ''Slot '' @ toString (currentSlotCount + 2),
              items_slot = []\<rparr>]
      in st\<lparr>slots := slots st @ newSlots\<rparr>)"

text \<open>
  \<open>slice(-2)\<close> keeps the last two elements (all of them when there are fewer) and
  \<open>slice(0, -2)\<close> drops them; the subtraction on \<open>nat\<close> stops at 0, which is what both
  calls do on a short array.
\<close>

definition removeTwoSlots :: "State \<Rightarrow> State" where
  "removeTwoSlots st =
     (if length (slots st) \<le> 2 then st
      else
        (let slotsToRemove = drop (length (slots st) - 2) (slots st);
             itemsToUnassign = concat (map (\<lambda>slot. map id_item (items_slot slot)) slotsToRemove)
         in st\<lparr>items :=
                  map (\<lambda>item. if id_item item \<in> set itemsToUnassign
                               then item\<lparr>slotId := None\<rparr>
                               else item) (items st),
                slots := take (length (slots st) - 2) (slots st)\<rparr>))"

definition removeItemFromSlot :: "string \<Rightarrow> State \<Rightarrow> State" where
  "removeItemFromSlot itemId st =
     st\<lparr>items :=
          map (\<lambda>item. if id_item item = itemId then item\<lparr>slotId := None\<rparr> else item)
            (items st),
        slots :=
          map (\<lambda>slot. slot\<lparr>items_slot :=
                               filter (\<lambda>item. id_item item \<noteq> itemId) (items_slot slot)\<rparr>)
            (slots st)\<rparr>"

section \<open>Reachable states\<close>

text \<open>
  A drop target that is a slot was rendered from the Slot Store, so its id is the id
  of a slot of the store. Any item id may be dragged or unassigned: an unknown one
  changes nothing.
\<close>

definition droppable :: "State \<Rightarrow> Over option \<Rightarrow> bool" where
  "droppable st ov =
     (case ov of
        Some (OverSlot targetSlot) \<Rightarrow> id_slot targetSlot \<in> set (map id_slot (slots st))
      | _ \<Rightarrow> True)"

inductive reachable :: "Config \<Rightarrow> State \<Rightarrow> bool" for cfg :: Config where
  start: "reachable cfg initialState"
| dragStart: "reachable cfg st \<Longrightarrow> reachable cfg (handleDragStart event st)"
| assign: "reachable cfg st \<Longrightarrow> droppable st (over event) \<Longrightarrow>
     reachable cfg (handleDragEnd cfg event st)"
| addSlots: "reachable cfg st \<Longrightarrow> reachable cfg (addMoreSlots st)"
| removeSlots: "reachable cfg st \<Longrightarrow> reachable cfg (removeTwoSlots st)"
| unassign: "reachable cfg st \<Longrightarrow> reachable cfg (removeItemFromSlot itemId st)"

section \<open>Properties of a state\<close>

text \<open>The slots whose list holds an item with the given id, in the order of the store.\<close>

definition holders :: "string \<Rightarrow> State \<Rightarrow> Slot list" where
  "holders itemId st =
     filter (\<lambda>slot. list_ex (\<lambda>x. id_item x = itemId) (items_slot slot)) (slots st)"

text \<open>
  An item of the Item Store is in sync when it has no \<open>slotId\<close>, or exactly one slot
  of the store holds it and that slot's id is the item's \<open>slotId\<close>.
\<close>

definition item_synced :: "State \<Rightarrow> Item \<Rightarrow> bool" where
  "item_synced st item =
     (case slotId item of
        None \<Rightarrow> True
      | Some sid \<Rightarrow> map id_slot (holders (id_item item) st) = [sid])"

definition store_sync :: "State \<Rightarrow> bool" where
  "store_sync st = list_all (item_synced st) (items st)"

text \<open>The ids \<open>slot-1\<close>, ..., \<open>slot-n\<close>.\<close>

definition slotIds :: "nat \<Rightarrow> string list" where
  "slotIds n = map (\<lambda>k. ''slot-'' @ toString k) [1..<Suc n]"

text \<open>What no handler changes of an item: its id and its content.\<close>

definition fixed_part :: "Item list \<Rightarrow> (string \<times> string) list" where
  "fixed_part xs = map (\<lambda>item. (id_item item, content item)) xs"

text \<open>
  Every element of a slot's list is an element of the Item Store whose \<open>slotId\<close> is the
  slot's id, and no list holds an id twice.
\<close>

definition slot_ok :: "Item list \<Rightarrow> Slot \<Rightarrow> bool" where
  "slot_ok xs slot =
     (distinct (map id_item (items_slot slot)) \<and>
      list_all (\<lambda>x. x \<in> set xs \<and> slotId x = Some (id_slot slot)) (items_slot slot))"

definition lists_ok :: "State \<Rightarrow> bool" where
  "lists_ok st = list_all (slot_ok (items st)) (slots st)"

text \<open>Every item of the Item Store with a \<open>slotId\<close> is in the list of a slot with that id.\<close>

definition assigned_ok :: "State \<Rightarrow> bool" where
  "assigned_ok st =
     list_all (\<lambda>item. case slotId item of
                  None \<Rightarrow> True
                | Some sid \<Rightarrow> list_ex (\<lambda>slot. id_slot slot = sid \<and> item \<in> set (items_slot slot))
                               (slots st))
       (items st)"

text \<open>
  The Slot Store holds an even number of slots, at least two, with the ids
  \<open>slot-1\<close>, ..., \<open>slot-n\<close> in this order.
\<close>

definition slots_wf :: "State \<Rightarrow> bool" where
  "slots_wf st = (even (length (slots st)) \<and> 2 \<le> length (slots st) \<and>
      map id_slot (slots st) = slotIds (length (slots st)))"

section \<open>Example runs\<close>

text \<open>
  Two settings of the options, with the limit off and on (the maximum is 2), the event
  of dropping an item on the \<open>k\<close>-th slot of a state, and three states the component
  reaches from its initial state.
\<close>

definition cfg_off :: Config where
  "cfg_off = \<lparr>ENABLE_SLOT_LIMIT = False, MAX_ITEMS_PER_SLOT = 2\<rparr>"

definition cfg_on :: Config where
  "cfg_on = \<lparr>ENABLE_SLOT_LIMIT = True, MAX_ITEMS_PER_SLOT = 2\<rparr>"

definition dropOn :: "string \<Rightarrow> nat \<Rightarrow> State \<Rightarrow> DragEvent" where
  "dropOn itemId k st = \<lparr>active = itemId, over = Some (OverSlot (slots st ! k))\<rparr>"

text \<open>The initial state after item 3 was dropped on the first slot, with the limit off.\<close>

definition state3 :: State where
  "state3 = handleDragEnd cfg_off (dropOn ''3'' 0 initialState) initialState"

text \<open>
  With the limit off: two more slots are added, item 3 is dropped on the third slot
  and item 5 on the first.
\<close>

definition state35 :: State where
  "state35 =
     (let st1 = addMoreSlots initialState;
          st2 = handleDragEnd cfg_off (dropOn ''3'' 2 st1) st1
      in handleDragEnd cfg_off (dropOn ''5'' 0 st2) st2)"

text \<open>
  With the limit on and a maximum of 2: items 1 and 2 are dropped on the first slot,
  which is then full, and item 3 on the second.
\<close>

definition state_full :: State where
  "state_full =
     (let st1 = handleDragEnd cfg_on (dropOn ''1'' 0 initialState) initialState;
          st2 = handleDragEnd cfg_on (dropOn ''2'' 0 st1) st1
      in handleDragEnd cfg_on (dropOn ''3'' 1 st2) st2)"

section \<open>Slot ids\<close>

subsection \<open>Decimal printing is injective\<close>

lemma digit_char_inj: "a < 10 \<Longrightarrow> b < 10 \<Longrightarrow> digit_char a = digit_char b \<Longrightarrow> a = b"
  unfolding digit_char_def
  by (rule iffD1[OF nth_eq_iff_index_eq]) simp_all

lemma toString_small: "n < 10 \<Longrightarrow> toString n = [digit_char n]"
  by (subst toString.simps) simp

lemma toString_large:
  "\<not> n < 10 \<Longrightarrow> toString n = toString (n div 10) @ [digit_char (n mod 10)]"
  by (subst toString.simps) simp

lemma toString_nonempty: "toString n \<noteq> []"
  by (subst toString.simps) simp

lemma toString_inj: "toString a = toString b \<Longrightarrow> a = b"
proof (induction a arbitrary: b rule: toString.induct)
  case (1 n)
  show ?case
  proof (cases "n < 10")
    case True
    note n = toString_small[OF True]
    show ?thesis
    proof (cases "b < 10")
      case bs: True
      from n "1.prems" toString_small[OF bs] have "digit_char n = digit_char b"
        by simp
      with True bs show ?thesis by (rule digit_char_inj)
    next
      case False
      from n "1.prems" toString_large[OF False] toString_nonempty[of "b div 10"]
      show ?thesis by simp
    qed
  next
    case False
    note n = toString_large[OF False]
    show ?thesis
    proof (cases "b < 10")
      case True
      from n "1.prems" toString_small[OF True] toString_nonempty[of "n div 10"]
      show ?thesis by simp
    next
      case bl: False
      from n "1.prems" toString_large[OF bl]
      have e1: "toString (n div 10) = toString (b div 10)"
        and e2: "digit_char (n mod 10) = digit_char (b mod 10)"
        by simp_all
      from "1.IH"[OF False e1] have d: "n div 10 = b div 10" .
      have "n mod 10 < 10" "b mod 10 < 10" by simp_all
      then have m: "n mod 10 = b mod 10" using e2 by (rule digit_char_inj)
      from d m show ?thesis by (metis div_mult_mod_eq)
    qed
  qed
qed

lemma toString_eq_iff: "toString a = toString b \<longleftrightarrow> a = b"
  using toString_inj by blast

lemma distinct_slotIds: "distinct (slotIds n)"
  unfolding slotIds_def
  by (simp add: distinct_map inj_on_def toString_eq_iff del: upt_Suc)

lemma length_slotIds: "length (slotIds n) = n"
  by (simp add: slotIds_def del: upt_Suc)

lemma slotIds_Suc: "slotIds (Suc n) = slotIds n @ [''slot-'' @ toString (Suc n)]"
  by (simp add: slotIds_def)

lemma set_slotIds: "set (slotIds n) = (\<lambda>k. ''slot-'' @ toString k) ` {1..n}"
  unfolding slotIds_def by (auto simp del: upt_Suc simp: image_iff)

lemma fresh_slotId: "n < k \<Longrightarrow> ''slot-'' @ toString k \<notin> set (slotIds n)"
  by (auto simp: set_slotIds toString_eq_iff)

lemma take_slotIds: "m \<le> n \<Longrightarrow> take m (slotIds n) = slotIds m"
proof (induction n)
  case 0 then show ?case by (simp add: slotIds_def)
next
  case (Suc n)
  show ?case
  proof (cases "m = Suc n")
    case True
    then show ?thesis using length_slotIds[of "Suc n"] by simp
  next
    case False
    with Suc show ?thesis by (simp add: slotIds_Suc length_slotIds)
  qed
qed

subsection \<open>The slot ids of every handler's result\<close>

lemma id_slot_updateSlot [simp]: "id_slot (updateSlot cfg a t s) = id_slot s"
  by (simp add: updateSlot_def Let_def)

lemma name_slot_updateSlot [simp]: "name_slot (updateSlot cfg a t s) = name_slot s"
  by (simp add: updateSlot_def Let_def)

lemma slots_handleDragStart [simp]: "slots (handleDragStart e st) = slots st"
  by (simp add: handleDragStart_def split: option.splits)

lemma items_handleDragStart [simp]: "items (handleDragStart e st) = items st"
  by (simp add: handleDragStart_def split: option.splits)

lemma ids_handleDragEnd:
  "map id_slot (slots (handleDragEnd cfg e st)) = map id_slot (slots st)"
  by (simp add: handleDragEnd_def Let_def comp_def split: option.splits Over.splits)

lemma length_slots_handleDragEnd [simp]:
  "length (slots (handleDragEnd cfg e st)) = length (slots st)"
  using arg_cong[OF ids_handleDragEnd, of length cfg e st] by simp

lemma ids_removeItemFromSlot:
  "map id_slot (slots (removeItemFromSlot i st)) = map id_slot (slots st)"
  by (simp add: removeItemFromSlot_def comp_def)

lemma length_slots_removeItemFromSlot [simp]:
  "length (slots (removeItemFromSlot i st)) = length (slots st)"
  by (simp add: removeItemFromSlot_def)

lemma slots_addMoreSlots:
  "slots (addMoreSlots st) = slots st @
     [\<lparr>id_slot = ''slot-'' @ toString (length (slots st) + 1),
       name_slot = ''Slot '' @ toString (length (slots st) + 1), items_slot = []\<rparr>,
      \<lparr>id_slot = ''slot-'' @ toString (length (slots st) + 2),
       name_slot = ''Slot '' @ toString (length (slots st) + 2), items_slot = []\<rparr>]"
  by (simp add: addMoreSlots_def Let_def)

lemma items_addMoreSlots [simp]: "items (addMoreSlots st) = items st"
  by (simp add: addMoreSlots_def Let_def)

lemma slots_removeTwoSlots:
  "slots (removeTwoSlots st) =
     (if length (slots st) \<le> 2 then slots st else take (length (slots st) - 2) (slots st))"
  by (simp add: removeTwoSlots_def Let_def)

lemma slots_wf_initial: "slots_wf initialState"
  by (simp add: slots_wf_def initialState_def slotIds_def toString_small digit_char_def)

lemma slots_wf_addMoreSlots: "slots_wf st \<Longrightarrow> slots_wf (addMoreSlots st)"
  by (simp add: slots_wf_def slots_addMoreSlots slotIds_Suc)

lemma slots_wf_removeTwoSlots:
  assumes "slots_wf st" shows "slots_wf (removeTwoSlots st)"
proof (cases "length (slots st) \<le> 2")
  case True
  with assms show ?thesis by (simp add: removeTwoSlots_def)
next
  case False
  let ?n = "length (slots st)"
  from assms have ev: "even ?n" and ids: "map id_slot (slots st) = slotIds ?n"
    by (simp_all add: slots_wf_def)
  from False ev have four: "4 \<le> ?n" by presburger
  have "map id_slot (take (?n - 2) (slots st)) = take (?n - 2) (slotIds ?n)"
    by (metis ids take_map)
  also have "\<dots> = slotIds (?n - 2)" by (simp add: take_slotIds)
  finally have m: "map id_slot (take (?n - 2) (slots st)) = slotIds (?n - 2)" .
  have sl: "slots (removeTwoSlots st) = take (?n - 2) (slots st)"
    using False by (simp add: slots_removeTwoSlots)
  have len: "length (slots (removeTwoSlots st)) = ?n - 2"
    unfolding sl by simp
  from ev four have "even (?n - 2)" "2 \<le> ?n - 2" by simp_all
  with m show ?thesis
    unfolding slots_wf_def len unfolding sl by simp
qed

lemma reachable_slots_wf: "reachable cfg st \<Longrightarrow> slots_wf st"
proof (induction rule: reachable.induct)
  case start
  show ?case by (rule slots_wf_initial)
next
  case (dragStart st event)
  then show ?case by (simp add: slots_wf_def)
next
  case (assign st event)
  then show ?case by (simp add: slots_wf_def ids_handleDragEnd)
next
  case (addSlots st)
  then show ?case by (simp add: slots_wf_addMoreSlots)
next
  case (removeSlots st)
  then show ?case by (simp add: slots_wf_removeTwoSlots)
next
  case (unassign st itemId)
  then show ?case by (simp add: slots_wf_def ids_removeItemFromSlot)
qed

subsection \<open>The item store's fixed part\<close>

lemma fixed_part_map:
  "(\<And>x. id_item (f x) = id_item x \<and> content (f x) = content x) \<Longrightarrow>
     fixed_part (map f xs) = fixed_part xs"
  by (simp add: fixed_part_def)

lemma fixed_part_handleDragEnd:
  "fixed_part (items (handleDragEnd cfg e st)) = fixed_part (items st)"
  by (simp add: handleDragEnd_def Let_def fixed_part_map split: option.splits Over.splits)

lemma fixed_part_removeTwoSlots:
  "fixed_part (items (removeTwoSlots st)) = fixed_part (items st)"
  by (simp add: removeTwoSlots_def Let_def fixed_part_map)

lemma fixed_part_removeItemFromSlot:
  "fixed_part (items (removeItemFromSlot i st)) = fixed_part (items st)"
  by (simp add: removeItemFromSlot_def fixed_part_map)

lemma reachable_fixed_part:
  "reachable cfg st \<Longrightarrow> fixed_part (items st) = fixed_part initialItems"
proof (induction rule: reachable.induct)
  case start
  show ?case by (simp add: initialState_def)
qed (simp_all add: fixed_part_handleDragEnd fixed_part_removeTwoSlots
      fixed_part_removeItemFromSlot)

lemma distinct_initial_ids: "distinct (map fst (fixed_part initialItems))"
  by (simp add: fixed_part_def initialItems_def)

lemma map_fst_fixed_part: "map fst (fixed_part xs) = map id_item xs"
  by (simp add: fixed_part_def)

lemma reachable_distinct_items:
  assumes "reachable cfg st" shows "distinct (map id_item (items st))"
  using distinct_initial_ids reachable_fixed_part[OF assms] map_fst_fixed_part[of "items st"]
  by simp

lemma reachable_distinct_slots:
  assumes "reachable cfg st" shows "distinct (map id_slot (slots st))"
  using reachable_slots_wf[OF assms] distinct_slotIds[of "length (slots st)"]
  by (simp add: slots_wf_def)

text \<open>
  Claim C9. Every operation (assign, addSlots, removeSlots, unassign) leaves the Item
  Store's length and order and every item's id and content as they were: the list of
  (id, content) pairs of the store is the same before and after. So in every reachable
  state the store still holds the ten seed items, in their order, and only \<open>slotId\<close>
  fields differ from the seed.
\<close>

theorem item_store_frame:
  "fixed_part (items (handleDragEnd cfg event st)) = fixed_part (items st) \<and>
   fixed_part (items (addMoreSlots st)) = fixed_part (items st) \<and>
   fixed_part (items (removeTwoSlots st)) = fixed_part (items st) \<and>
   fixed_part (items (removeItemFromSlot itemId st)) = fixed_part (items st) \<and>
   (reachable cfg st \<longrightarrow>
      fixed_part (items st) = fixed_part initialItems \<and> length (items st) = 10)"
proof -
  have "length (items st) = 10" if r: "reachable cfg st"
  proof -
    have "length (fixed_part (items st)) = length (fixed_part initialItems)"
      using reachable_fixed_part[OF r] by simp
    then show ?thesis by (simp add: fixed_part_def initialItems_def)
  qed
  then show ?thesis
    by (simp add: fixed_part_handleDragEnd fixed_part_removeTwoSlots
        fixed_part_removeItemFromSlot reachable_fixed_part)
qed

theorem item_store_frame_witness:
  "fixed_part (items (handleDragEnd cfg_off (dropOn ''3'' 0 initialState) initialState))
     = fixed_part initialItems \<and>
   fixed_part (items (addMoreSlots initialState)) = fixed_part initialItems \<and>
   fixed_part (items (removeTwoSlots initialState)) = fixed_part initialItems \<and>
   fixed_part (items (removeItemFromSlot ''3'' initialState)) = fixed_part initialItems \<and>
   reachable cfg_off initialState \<and> length (items initialState) = 10"
  using item_store_frame[of cfg_off "dropOn ''3'' 0 initialState" initialState "''3''"]
    reachable.start[of cfg_off]
  by (simp add: initialState_def)

subsection \<open>The shape of the Slot Store\<close>

text \<open>
  Claim C10. In every reachable state the number of slots is even and at least 2, the
  ids of the slots are \<open>slot-1\<close>, ..., \<open>slot-n\<close> in this order for the current count
  \<open>n\<close>, and so the two ids that addSlots makes from the count, \<open>slot-(n+1)\<close> and
  \<open>slot-(n+2)\<close>, are ids of no slot of the store.
\<close>

theorem slot_store_shape:
  assumes "reachable cfg st"
  shows "even (length (slots st)) \<and> 2 \<le> length (slots st) \<and>
    map id_slot (slots st) =
      map (\<lambda>k. ''slot-'' @ toString k) [1..<Suc (length (slots st))] \<and>
    ''slot-'' @ toString (length (slots st) + 1) \<notin> set (map id_slot (slots st)) \<and>
    ''slot-'' @ toString (length (slots st) + 2) \<notin> set (map id_slot (slots st))"
proof -
  let ?n = "length (slots st)"
  from reachable_slots_wf[OF assms]
  have ev: "even ?n" and two: "2 \<le> ?n" and ids: "map id_slot (slots st) = slotIds ?n"
    by (simp_all add: slots_wf_def)
  have f1: "''slot-'' @ toString (?n + 1) \<notin> set (slotIds ?n)"
    by (rule fresh_slotId) simp
  have f2: "''slot-'' @ toString (?n + 2) \<notin> set (slotIds ?n)"
    by (rule fresh_slotId) simp
  from ev two f1 f2 show ?thesis
    unfolding ids by (simp add: slotIds_def)
qed

theorem slot_store_shape_witness:
  "reachable cfg_on (addMoreSlots initialState) \<and>
   length (slots (addMoreSlots initialState)) = 4 \<and>
   map id_slot (slots (addMoreSlots initialState)) =
     [''slot-1'', ''slot-2'', ''slot-3'', ''slot-4''] \<and>
   ''slot-5'' \<notin> set (map id_slot (slots (addMoreSlots initialState))) \<and>
   ''slot-6'' \<notin> set (map id_slot (slots (addMoreSlots initialState)))"
proof -
  have r: "reachable cfg_on (addMoreSlots initialState)"
    by (intro reachable.addSlots reachable.start)
  have len: "length (slots (addMoreSlots initialState)) = 4"
    by (simp add: slots_addMoreSlots initialState_def)
  show ?thesis
    using r slot_store_shape[OF r] unfolding len
    by (simp add: toString_small digit_char_def upt_rec)
qed

text \<open>
  Claim C7. In every reachable state addSlots appends exactly two slots at the end of
  the Slot Store; with \<open>n\<close> the count before, they are named \<open>Slot (n+1)\<close> and
  \<open>Slot (n+2)\<close>, have the ids \<open>slot-(n+1)\<close> and \<open>slot-(n+2)\<close>, which differ from each
  other and from the id of every slot already there, and have empty item lists. The
  Item Store and the slots already there are unchanged.
\<close>

theorem addMoreSlots_appends_two:
  assumes "reachable cfg st"
  shows "items (addMoreSlots st) = items st \<and>
    slots (addMoreSlots st) = slots st @
      [\<lparr>id_slot = ''slot-'' @ toString (length (slots st) + 1),
        name_slot = ''Slot '' @ toString (length (slots st) + 1), items_slot = []\<rparr>,
       \<lparr>id_slot = ''slot-'' @ toString (length (slots st) + 2),
        name_slot = ''Slot '' @ toString (length (slots st) + 2), items_slot = []\<rparr>] \<and>
    ''slot-'' @ toString (length (slots st) + 1) \<notin> set (map id_slot (slots st)) \<and>
    ''slot-'' @ toString (length (slots st) + 2) \<notin> set (map id_slot (slots st)) \<and>
    ''slot-'' @ toString (length (slots st) + 1) \<noteq> ''slot-'' @ toString (length (slots st) + 2) \<and>
    distinct (map id_slot (slots (addMoreSlots st)))"
proof -
  have "distinct (map id_slot (slots (addMoreSlots st)))"
    by (rule reachable_distinct_slots[OF reachable.addSlots[OF assms]])
  then show ?thesis
    by (simp add: slots_addMoreSlots)
qed

theorem addMoreSlots_appends_two_witness:
  "reachable cfg_off initialState \<and>
   items (addMoreSlots initialState) = items initialState \<and>
   slots (addMoreSlots initialState) = slots initialState @
     [\<lparr>id_slot = ''slot-3'', name_slot = ''Slot 3'', items_slot = []\<rparr>,
      \<lparr>id_slot = ''slot-4'', name_slot = ''Slot 4'', items_slot = []\<rparr>] \<and>
   ''slot-3'' \<notin> set (map id_slot (slots initialState)) \<and>
   ''slot-4'' \<notin> set (map id_slot (slots initialState)) \<and>
   distinct (map id_slot (slots (addMoreSlots initialState)))"
proof -
  have r: "reachable cfg_off initialState" by (rule reachable.start)
  have len: "length (slots initialState) = 2" by (simp add: initialState_def)
  show ?thesis
    using r addMoreSlots_appends_two[OF r] unfolding len
    by (simp add: toString_small digit_char_def initialState_def)
qed

text \<open>
  Claim C6. removeSlots on a state with fewer than 3 slots returns the state as it
  is, Item Store and Slot Store included; and every reachable state has at least 2
  slots, also after removeSlots.
\<close>

theorem removeTwoSlots_floor:
  "(length (slots st) < 3 \<longrightarrow> removeTwoSlots st = st) \<and>
   (reachable cfg st \<longrightarrow> 2 \<le> length (slots st) \<and> 2 \<le> length (slots (removeTwoSlots st)))"
proof -
  have "2 \<le> length (slots s)" if "reachable cfg s" for s
    using reachable_slots_wf[OF that] by (simp add: slots_wf_def)
  from this[of st] this[OF reachable.removeSlots, of st] show ?thesis
    by (simp add: removeTwoSlots_def)
qed

theorem removeTwoSlots_floor_witness:
  "length (slots initialState) < 3 \<and> removeTwoSlots initialState = initialState \<and>
   reachable cfg_on initialState \<and> 2 \<le> length (slots (removeTwoSlots initialState))"
  using removeTwoSlots_floor[of initialState cfg_on] reachable.start[of cfg_on]
  by (simp add: initialState_def)

subsection \<open>Unassigning an item\<close>

lemma clear_absent_slotId: "slotId (x::Item) = None \<Longrightarrow> x\<lparr>slotId := None\<rparr> = x"
  by simp

lemma filter_absent_id:
  "itemId \<notin> set (map id_item xs) \<Longrightarrow> filter (\<lambda>x. id_item x \<noteq> itemId) xs = xs"
  by (induction xs) auto

lemma restore_items_slot: "(s::Slot)\<lparr>items_slot := items_slot s\<rparr> = s"
  by simp

text \<open>
  Claim C8. unassign with an item id clears the \<open>slotId\<close> of every item of the Item
  Store with that id and leaves every other item as it is; in the Slot Store every
  slot keeps its id and name, and its list is the old list without the elements of
  that id, so the id is in no list afterwards and the other elements stay, in order.
  If the item is already unassigned (no item of that id has a \<open>slotId\<close> and no list
  holds the id) both stores are equal to the stores before.
\<close>

theorem removeItemFromSlot_effect:
  "length (items (removeItemFromSlot itemId st)) = length (items st) \<and>
   (\<forall>k < length (items st).
      items (removeItemFromSlot itemId st) ! k =
        (if id_item (items st ! k) = itemId then (items st ! k)\<lparr>slotId := None\<rparr>
         else items st ! k)) \<and>
   length (slots (removeItemFromSlot itemId st)) = length (slots st) \<and>
   (\<forall>j < length (slots st).
      id_slot (slots (removeItemFromSlot itemId st) ! j) = id_slot (slots st ! j) \<and>
      name_slot (slots (removeItemFromSlot itemId st) ! j) = name_slot (slots st ! j) \<and>
      items_slot (slots (removeItemFromSlot itemId st) ! j) =
        filter (\<lambda>x. id_item x \<noteq> itemId) (items_slot (slots st ! j)) \<and>
      itemId \<notin> set (map id_item (items_slot (slots (removeItemFromSlot itemId st) ! j)))) \<and>
   ((\<forall>x \<in> set (items st). id_item x = itemId \<longrightarrow> slotId x = None) \<and>
    (\<forall>s \<in> set (slots st). itemId \<notin> set (map id_item (items_slot s))) \<longrightarrow>
      items (removeItemFromSlot itemId st) = items st \<and>
      slots (removeItemFromSlot itemId st) = slots st)"
proof -
  have noop_items: "items (removeItemFromSlot itemId st) = items st"
    if "\<forall>x \<in> set (items st). id_item x = itemId \<longrightarrow> slotId x = None"
  proof -
    have "map (\<lambda>item. if id_item item = itemId then item\<lparr>slotId := None\<rparr> else item) (items st)
          = map (\<lambda>item. item) (items st)"
      using that by (intro map_cong refl) (simp add: clear_absent_slotId)
    then show ?thesis by (simp add: removeItemFromSlot_def)
  qed
  have noop_slots: "slots (removeItemFromSlot itemId st) = slots st"
    if "\<forall>s \<in> set (slots st). itemId \<notin> set (map id_item (items_slot s))"
  proof -
    have "map (\<lambda>slot. slot\<lparr>items_slot :=
              filter (\<lambda>item. id_item item \<noteq> itemId) (items_slot slot)\<rparr>) (slots st)
          = map (\<lambda>slot. slot) (slots st)"
      using that by (intro map_cong refl) (simp add: filter_absent_id)
    then show ?thesis by (simp add: removeItemFromSlot_def)
  qed
  have main: "length (items (removeItemFromSlot itemId st)) = length (items st) \<and>
   (\<forall>k < length (items st).
      items (removeItemFromSlot itemId st) ! k =
        (if id_item (items st ! k) = itemId then (items st ! k)\<lparr>slotId := None\<rparr>
         else items st ! k)) \<and>
   length (slots (removeItemFromSlot itemId st)) = length (slots st) \<and>
   (\<forall>j < length (slots st).
      id_slot (slots (removeItemFromSlot itemId st) ! j) = id_slot (slots st ! j) \<and>
      name_slot (slots (removeItemFromSlot itemId st) ! j) = name_slot (slots st ! j) \<and>
      items_slot (slots (removeItemFromSlot itemId st) ! j) =
        filter (\<lambda>x. id_item x \<noteq> itemId) (items_slot (slots st ! j)) \<and>
      itemId \<notin> set (map id_item (items_slot (slots (removeItemFromSlot itemId st) ! j))))"
    by (auto simp: removeItemFromSlot_def)
  from main noop_items noop_slots show ?thesis by blast
qed

theorem removeItemFromSlot_effect_witness:
  "slotId (items state3 ! 2) = Some ''slot-1'' \<and>
   map id_item (items_slot (slots state3 ! 0)) = [''3''] \<and>
   items (removeItemFromSlot ''3'' state3) = initialItems \<and>
   slots (removeItemFromSlot ''3'' state3) = slots initialState \<and>
   items (removeItemFromSlot ''3'' initialState) = items initialState \<and>
   slots (removeItemFromSlot ''3'' initialState) = slots initialState"
proof -
  have before: "slotId (items state3 ! 2) = Some ''slot-1''"
    "map id_item (items_slot (slots state3 ! 0)) = [''3'']"
    by code_simp+
  have after: "items (removeItemFromSlot ''3'' state3) = initialItems"
    "slots (removeItemFromSlot ''3'' state3) = slots initialState"
    "items (removeItemFromSlot ''3'' initialState) = items initialState"
    "slots (removeItemFromSlot ''3'' initialState) = slots initialState"
    by code_simp+
  show ?thesis
    using removeItemFromSlot_effect[of "''3''" state3] before after
    by blast
qed

subsection \<open>The lists of the slots hold items of the Item Store\<close>

lemma slot_ok_iff:
  "slot_ok xs s \<longleftrightarrow> distinct (map id_item (items_slot s)) \<and>
     (\<forall>x \<in> set (items_slot s). x \<in> set xs \<and> slotId x = Some (id_slot s))"
  by (simp add: slot_ok_def list_all_iff)

lemma lists_ok_iff: "lists_ok st \<longleftrightarrow> (\<forall>s \<in> set (slots st). slot_ok (items st) s)"
  by (simp add: lists_ok_def list_all_iff)

lemma lists_ok_member:
  "lists_ok st \<Longrightarrow> s \<in> set (slots st) \<Longrightarrow> x \<in> set (items_slot s) \<Longrightarrow>
     x \<in> set (items st) \<and> slotId x = Some (id_slot s)"
  by (simp add: lists_ok_iff slot_ok_iff)

lemma same_id_same_item:
  "distinct (map id_item xs) \<Longrightarrow> x \<in> set xs \<Longrightarrow> y \<in> set xs \<Longrightarrow>
     id_item x = id_item y \<Longrightarrow> x = y"
  by (meson distinct_map inj_onD)

lemma find_active:
  "find (\<lambda>item. id_item item = i) xs = Some a \<Longrightarrow> a \<in> set xs \<and> id_item a = i"
  by (auto simp: find_Some_iff)

lemma in_set_map: "x \<in> set xs \<Longrightarrow> f x \<in> set (map f xs)"
  by simp

lemma fixed_point_in_map: "x \<in> set xs \<Longrightarrow> f x = x \<Longrightarrow> x \<in> set (map f xs)"
  using in_set_map[of x xs f] by simp

lemma slot_ok_updateSlot:
  assumes a: "a \<in> set xs"
    and ok: "slot_ok xs s"
  shows "slot_ok (map (\<lambda>item. if id_item item = id_item a
                          then item\<lparr>slotId := Some (id_slot t)\<rparr> else item) xs)
           (updateSlot cfg a t s)"
proof -
  let ?upd = "\<lambda>item. if id_item item = id_item a
                          then item\<lparr>slotId := Some (id_slot t)\<rparr> else item"
  from ok have ds: "distinct (map id_item (items_slot s))"
    and mem: "\<And>x. x \<in> set (items_slot s) \<Longrightarrow> x \<in> set xs"
    and sid: "\<And>x. x \<in> set (items_slot s) \<Longrightarrow> slotId x = Some (id_slot s)"
    by (simp_all add: slot_ok_iff)
  have keep: "x \<in> set (map ?upd xs)"
    if "x \<in> set (items_slot s)" "id_item x \<noteq> id_item a" for x
    using that mem[of x] by (intro fixed_point_in_map) simp_all
  have keep_target: "x \<in> set (map ?upd xs)"
    if "x \<in> set (items_slot s)" "id_slot s = id_slot t" for x
    using that mem[of x] sid[of x] by (intro fixed_point_in_map) simp_all
  have new: "a\<lparr>slotId := Some (id_slot t)\<rparr> \<in> set (map ?upd xs)"
    using in_set_map[OF a, of ?upd] by simp
  show ?thesis
  proof (cases "id_slot s = id_slot t")
    case False
    then have u: "updateSlot cfg a t s =
        s\<lparr>items_slot := filter (\<lambda>item. id_item item \<noteq> id_item a) (items_slot s)\<rparr>"
      by (simp add: updateSlot_def)
    show ?thesis unfolding u slot_ok_iff
      using ds keep sid by (simp add: distinct_map_filter del: set_map)
  next
    case True
    show ?thesis
    proof (cases "updateSlot cfg a t s = s")
      case same: True
      show ?thesis unfolding same slot_ok_iff
        using ds keep_target[OF _ True] sid by (simp del: set_map)
    next
      case False
      with True have u: "updateSlot cfg a t s =
          s\<lparr>items_slot := items_slot s @ [a\<lparr>slotId := Some (id_slot t)\<rparr>]\<rparr>"
        and fresh: "id_item a \<notin> set (map id_item (items_slot s))"
        by (auto simp: updateSlot_def Let_def list_ex_iff split: if_splits)
      show ?thesis unfolding u slot_ok_iff
        using ds keep_target[OF _ True] sid new fresh True by (auto simp del: set_map)
    qed
  qed
qed

lemma ball_set_map: "(\<forall>x \<in> set (map f xs). P x) \<longleftrightarrow> (\<forall>x \<in> set xs. P (f x))"
  by simp

lemma lists_ok_activeItem [simp]: "lists_ok (st\<lparr>activeItem := v\<rparr>) = lists_ok st"
  by (simp add: lists_ok_def)

lemma lists_ok_handleDragStart: "lists_ok st \<Longrightarrow> lists_ok (handleDragStart e st)"
  by (simp add: handleDragStart_def split: option.splits)

lemma handleDragEnd_cases:
  obtains (ignored) "items (handleDragEnd cfg e st) = items st"
      "slots (handleDragEnd cfg e st) = slots st"
    | (dropped) a t where "find (\<lambda>item. id_item item = active e) (items st) = Some a"
      "over e = Some (OverSlot t)"
      "items (handleDragEnd cfg e st) =
         map (\<lambda>item. if id_item item = id_item a
                      then item\<lparr>slotId := Some (id_slot t)\<rparr> else item) (items st)"
      "slots (handleDragEnd cfg e st) = map (updateSlot cfg a t) (slots st)"
proof (cases "over e")
  case None
  then show ?thesis by (intro ignored) (simp_all add: handleDragEnd_def)
next
  case (Some ov)
  show ?thesis
  proof (cases "find (\<lambda>item. id_item item = active e) (items st)")
    case None
    with Some show ?thesis by (intro ignored) (simp_all add: handleDragEnd_def)
  next
    case found: (Some a)
    show ?thesis
    proof (cases ov)
      case OverOther
      with Some found show ?thesis by (intro ignored) (simp_all add: handleDragEnd_def)
    next
      case (OverSlot t)
      with Some found show ?thesis
        by (intro dropped[of a t]) (simp_all add: handleDragEnd_def)
    qed
  qed
qed

lemma lists_ok_handleDragEnd:
  assumes ok: "lists_ok st"
  shows "lists_ok (handleDragEnd cfg e st)"
proof (cases rule: handleDragEnd_cases[of cfg e st])
  case ignored
  with ok show ?thesis by (simp add: lists_ok_iff)
next
  case (dropped a t)
  from find_active[OF dropped(1)] have a: "a \<in> set (items st)" by simp
  from ok have "\<forall>s \<in> set (slots st). slot_ok (items st) s" by (simp add: lists_ok_iff)
  then show ?thesis
    unfolding lists_ok_iff dropped(3,4)
    by (simp add: slot_ok_updateSlot[OF a] ball_set_map del: set_map)
qed

lemma lists_ok_addMoreSlots: "lists_ok st \<Longrightarrow> lists_ok (addMoreSlots st)"
  by (simp add: lists_ok_def slot_ok_def addMoreSlots_def Let_def)

lemma lists_ok_removeItemFromSlot:
  assumes ok: "lists_ok st"
  shows "lists_ok (removeItemFromSlot i st)"
proof -
  let ?clr = "\<lambda>item. if id_item item = i then item\<lparr>slotId := None\<rparr> else item"
  have "slot_ok (map ?clr (items st))
          (s\<lparr>items_slot := filter (\<lambda>item. id_item item \<noteq> i) (items_slot s)\<rparr>)"
    if s: "slot_ok (items st) s" for s
  proof -
    have "x \<in> set (map ?clr (items st))" if "x \<in> set (items_slot s)" "id_item x \<noteq> i" for x
      using that s by (intro fixed_point_in_map) (simp_all add: slot_ok_iff)
    with s show ?thesis by (simp add: slot_ok_iff distinct_map_filter del: set_map)
  qed
  with ok show ?thesis
    by (simp add: lists_ok_iff removeItemFromSlot_def ball_set_map del: set_map)
qed

text \<open>No element of a surviving slot's list has the id of an element of a removed one.\<close>

lemma survivors_not_unassigned:
  assumes ok: "lists_ok st" and d: "distinct (map id_item (items st))"
    and ds: "distinct (map id_slot (slots st))"
    and s: "s \<in> set (take n (slots st))" and x: "x \<in> set (items_slot s)"
  shows "id_item x \<notin> set (concat (map (\<lambda>slot. map id_item (items_slot slot))
                                    (drop n (slots st))))"
proof
  assume "id_item x \<in> set (concat (map (\<lambda>slot. map id_item (items_slot slot))
                                    (drop n (slots st))))"
  then obtain r y where r: "r \<in> set (drop n (slots st))" and y: "y \<in> set (items_slot r)"
    and e: "id_item y = id_item x" by auto
  from s r have s': "s \<in> set (slots st)" and r': "r \<in> set (slots st)"
    by (auto dest: in_set_takeD in_set_dropD)
  note x' = lists_ok_member[OF ok s' x] and y' = lists_ok_member[OF ok r' y]
  from x' y' have "x \<in> set (items st)" "y \<in> set (items st)" by simp_all
  from same_id_same_item[OF d this(2) this(1) e] x' y' have same: "id_slot r = id_slot s"
    by simp
  have "distinct (map id_slot (take n (slots st)) @ map id_slot (drop n (slots st)))"
    using ds by (simp flip: map_append)
  then have "set (map id_slot (take n (slots st))) \<inter> set (map id_slot (drop n (slots st))) = {}"
    by (simp only: distinct_append)
  with s r same show False by auto
qed

lemma lists_ok_removeTwoSlots:
  assumes ok: "lists_ok st" and d: "distinct (map id_item (items st))"
    and ds: "distinct (map id_slot (slots st))"
  shows "lists_ok (removeTwoSlots st)"
proof (cases "length (slots st) \<le> 2")
  case True
  with ok show ?thesis by (simp add: removeTwoSlots_def)
next
  case False
  define n where "n = length (slots st) - 2"
  define gone where
    "gone = concat (map (\<lambda>slot. map id_item (items_slot slot)) (drop n (slots st)))"
  define clr where
    "clr = (\<lambda>item::Item. if id_item item \<in> set gone then item\<lparr>slotId := None\<rparr> else item)"
  have st': "items (removeTwoSlots st) = map clr (items st)"
    "slots (removeTwoSlots st) = take n (slots st)"
    using False by (simp_all add: removeTwoSlots_def Let_def clr_def gone_def n_def)
  have "slot_ok (map clr (items st)) s" if s: "s \<in> set (take n (slots st))" for s
  proof -
    from s have s': "s \<in> set (slots st)" by (rule in_set_takeD)
    with ok have sok: "slot_ok (items st) s" by (simp add: lists_ok_iff)
    have "x \<in> set (map clr (items st))" if x: "x \<in> set (items_slot s)" for x
    proof (rule fixed_point_in_map)
      from lists_ok_member[OF ok s' x] show "x \<in> set (items st)" by simp
      from survivors_not_unassigned[OF ok d ds s x] show "clr x = x"
        by (simp add: clr_def gone_def)
    qed
    with sok show ?thesis by (simp add: slot_ok_iff del: set_map)
  qed
  then show ?thesis unfolding lists_ok_iff st' by simp
qed

lemma lists_ok_initial: "lists_ok initialState"
  by (simp add: lists_ok_def slot_ok_def initialState_def)

lemma reachable_lists_ok: "reachable cfg st \<Longrightarrow> lists_ok st"
proof (induction rule: reachable.induct)
  case start
  show ?case by (rule lists_ok_initial)
next
  case (dragStart st event)
  then show ?case by (simp add: lists_ok_handleDragStart)
next
  case (assign st event)
  then show ?case by (simp add: lists_ok_handleDragEnd)
next
  case (addSlots st)
  then show ?case by (simp add: lists_ok_addMoreSlots)
next
  case (removeSlots st)
  then show ?case
    by (simp add: lists_ok_removeTwoSlots reachable_distinct_items reachable_distinct_slots)
next
  case (unassign st itemId)
  then show ?case by (simp add: lists_ok_removeItemFromSlot)
qed

subsection \<open>Removing the last two slots\<close>

lemma take_drop_ids_differ:
  assumes ds: "distinct (map id_slot ss)"
    and s: "s \<in> set (take n ss)" and r: "r \<in> set (drop n ss)"
  shows "id_slot s \<noteq> id_slot r"
proof -
  have "distinct (map id_slot (take n ss) @ map id_slot (drop n ss))"
    using ds by (simp flip: map_append)
  then have "set (map id_slot (take n ss)) \<inter> set (map id_slot (drop n ss)) = {}"
    by (simp only: distinct_append)
  with s r show ?thesis by auto
qed

lemma items_removeTwoSlots:
  "2 < length (slots st) \<Longrightarrow>
   items (removeTwoSlots st) =
     map (\<lambda>item. if id_item item \<in> set (concat (map (\<lambda>slot. map id_item (items_slot slot))
                                      (drop (length (slots st) - 2) (slots st))))
                  then item\<lparr>slotId := None\<rparr> else item) (items st)"
  by (simp add: removeTwoSlots_def Let_def)

lemma last_two:
  assumes l: "2 \<le> length xs"
  shows "xs = take (length xs - 2) xs @ [xs ! (length xs - 2), xs ! (length xs - 1)]"
proof -
  define n where "n = length xs - 2"
  from l have len: "length xs = Suc (Suc n)" by (simp add: n_def)
  have d2: "drop (Suc (Suc n)) xs = []" using len by simp
  have d1: "drop (Suc n) xs = xs ! Suc n # drop (Suc (Suc n)) xs"
    by (rule Cons_nth_drop_Suc[symmetric]) (simp add: len)
  have d0: "drop n xs = xs ! n # drop (Suc n) xs"
    by (rule Cons_nth_drop_Suc[symmetric]) (simp add: len)
  have "xs = take n xs @ drop n xs" by simp
  then have "xs = take n xs @ [xs ! n, xs ! Suc n]"
    unfolding d0 d1 d2 .
  moreover have "length xs - 1 = Suc n" using len by simp
  ultimately show ?thesis unfolding n_def[symmetric] by simp
qed

text \<open>
  Claim C5. With at least 3 slots, removeSlots removes exactly the last two slots: the
  Slot Store becomes the old one without its last two slots. No item is deleted:
  the Item Store keeps its length, and each item stays as it is but for the items
  whose id is in the list of one of the two removed slots, which have their \<open>slotId\<close>
  cleared and nothing else changed. In a reachable state, an item that is in the list
  of a surviving slot, or whose \<open>slotId\<close> is the id of a surviving slot, is unchanged.
\<close>

theorem removeTwoSlots_effect:
  assumes three: "3 \<le> length (slots st)"
  shows "slots (removeTwoSlots st) = take (length (slots st) - 2) (slots st) \<and>
    slots st = slots (removeTwoSlots st) @
      [slots st ! (length (slots st) - 2), slots st ! (length (slots st) - 1)] \<and>
    length (items (removeTwoSlots st)) = length (items st) \<and>
    (\<forall>k < length (items st).
       items (removeTwoSlots st) ! k =
         (if \<exists>r \<in> set (drop (length (slots st) - 2) (slots st)).
               id_item (items st ! k) \<in> set (map id_item (items_slot r))
          then (items st ! k)\<lparr>slotId := None\<rparr>
          else items st ! k)) \<and>
    (reachable cfg st \<longrightarrow>
       (\<forall>k < length (items st). \<forall>s \<in> set (slots (removeTwoSlots st)).
          slotId (items st ! k) = Some (id_slot s) \<or>
          id_item (items st ! k) \<in> set (map id_item (items_slot s)) \<longrightarrow>
          items (removeTwoSlots st) ! k = items st ! k))"
proof -
  define n where "n = length (slots st) - 2"
  from three have big: "2 < length (slots st)" by simp
  have sl: "slots (removeTwoSlots st) = take n (slots st)"
    using big by (simp add: slots_removeTwoSlots n_def)
  have split: "slots st = take n (slots st) @ [slots st ! n, slots st ! (length (slots st) - 1)]"
    unfolding n_def using three by (intro last_two) simp
  have it: "\<forall>k < length (items st).
       items (removeTwoSlots st) ! k =
         (if \<exists>r \<in> set (drop n (slots st)).
               id_item (items st ! k) \<in> set (map id_item (items_slot r))
          then (items st ! k)\<lparr>slotId := None\<rparr>
          else items st ! k)"
    unfolding items_removeTwoSlots[OF big] n_def by simp
  have len: "length (items (removeTwoSlots st)) = length (items st)"
    unfolding items_removeTwoSlots[OF big] by simp
  have surv: "items (removeTwoSlots st) ! k = items st ! k"
    if r: "reachable cfg st" and k: "k < length (items st)"
      and s: "s \<in> set (take n (slots st))"
      and a: "slotId (items st ! k) = Some (id_slot s) \<or>
              id_item (items st ! k) \<in> set (map id_item (items_slot s))" for k s
  proof -
    note ok = reachable_lists_ok[OF r] and d = reachable_distinct_items[OF r]
      and ds = reachable_distinct_slots[OF r]
    from k have mem: "items st ! k \<in> set (items st)" by simp
    from s have s': "s \<in> set (slots st)" by (rule in_set_takeD)
    have "id_item (items st ! k) \<notin> set (map id_item (items_slot q))"
      if q: "q \<in> set (drop n (slots st))" for q
    proof
      assume "id_item (items st ! k) \<in> set (map id_item (items_slot q))"
      then obtain y where y: "y \<in> set (items_slot q)" "id_item y = id_item (items st ! k)"
        by auto
      from q have q': "q \<in> set (slots st)" by (rule in_set_dropD)
      from lists_ok_member[OF ok q' y(1)] have y': "y \<in> set (items st)"
        "slotId y = Some (id_slot q)" by simp_all
      from same_id_same_item[OF d y'(1) mem y(2)] have yk: "y = items st ! k" .
      from a show False
      proof
        assume "slotId (items st ! k) = Some (id_slot s)"
        with yk y' take_drop_ids_differ[OF ds s q] show False by simp
      next
        assume "id_item (items st ! k) \<in> set (map id_item (items_slot s))"
        then obtain x where x: "x \<in> set (items_slot s)" "id_item x = id_item (items st ! k)"
          by auto
        from lists_ok_member[OF ok s' x(1)] have x': "x \<in> set (items st)"
          "slotId x = Some (id_slot s)" by simp_all
        from same_id_same_item[OF d x'(1) mem x(2)] have "x = items st ! k" .
        with yk x' y' take_drop_ids_differ[OF ds s q] show False by simp
      qed
    qed
    with it k show ?thesis by simp
  qed
  have surv': "reachable cfg st \<longrightarrow>
       (\<forall>k < length (items st). \<forall>s \<in> set (slots (removeTwoSlots st)).
          slotId (items st ! k) = Some (id_slot s) \<or>
          id_item (items st ! k) \<in> set (map id_item (items_slot s)) \<longrightarrow>
          items (removeTwoSlots st) ! k = items st ! k)"
    unfolding sl using surv by blast
  have split': "slots st = slots (removeTwoSlots st) @
      [slots st ! (length (slots st) - 2), slots st ! (length (slots st) - 1)]"
    unfolding sl using split unfolding n_def .
  from sl split' len it surv' show ?thesis
    unfolding n_def by (intro conjI)
qed

lemma reachable_state35: "reachable cfg_off state35"
  unfolding state35_def Let_def
  by (intro reachable.assign reachable.addSlots reachable.start; code_simp)

theorem removeTwoSlots_effect_witness:
  "3 \<le> length (slots state35) \<and> reachable cfg_off state35 \<and>
   map (\<lambda>s. (id_slot s, map id_item (items_slot s))) (slots state35) =
     [(''slot-1'', [''5'']), (''slot-2'', []), (''slot-3'', [''3'']), (''slot-4'', [])] \<and>
   map (\<lambda>s. (id_slot s, map id_item (items_slot s))) (slots (removeTwoSlots state35)) =
     [(''slot-1'', [''5'']), (''slot-2'', [])] \<and>
   length (items (removeTwoSlots state35)) = 10 \<and>
   items state35 ! 2 = \<lparr>id_item = ''3'', content = ''Task 3'', slotId = Some ''slot-3''\<rparr> \<and>
   items (removeTwoSlots state35) ! 2 = \<lparr>id_item = ''3'', content = ''Task 3'', slotId = None\<rparr> \<and>
   items (removeTwoSlots state35) ! 4 =
     \<lparr>id_item = ''5'', content = ''Task 5'', slotId = Some ''slot-1''\<rparr>"
proof -
  have three: "3 \<le> length (slots state35)"
    by code_simp
  have before: "map (\<lambda>s. (id_slot s, map id_item (items_slot s))) (slots state35) =
     [(''slot-1'', [''5'']), (''slot-2'', []), (''slot-3'', [''3'']), (''slot-4'', [])]"
    "items state35 ! 2 = \<lparr>id_item = ''3'', content = ''Task 3'', slotId = Some ''slot-3''\<rparr>"
    by code_simp+
  have after: "map (\<lambda>s. (id_slot s, map id_item (items_slot s))) (slots (removeTwoSlots state35)) =
     [(''slot-1'', [''5'']), (''slot-2'', [])]"
    "length (items (removeTwoSlots state35)) = 10"
    "items (removeTwoSlots state35) ! 2 = \<lparr>id_item = ''3'', content = ''Task 3'', slotId = None\<rparr>"
    "items (removeTwoSlots state35) ! 4 =
       \<lparr>id_item = ''5'', content = ''Task 5'', slotId = Some ''slot-1''\<rparr>"
    by code_simp+
  show ?thesis
    using removeTwoSlots_effect[OF three, of cfg_off] three reachable_state35 before after
    by blast
qed

subsection \<open>Dropping an item on the slot that holds it\<close>

lemma find_by_id:
  "distinct (map id_item xs) \<Longrightarrow> x \<in> set xs \<Longrightarrow>
     find (\<lambda>item. id_item item = id_item x) xs = Some x"
  by (induction xs) (auto simp: image_iff)

lemma same_id_same_slot:
  "distinct (map id_slot ss) \<Longrightarrow> s \<in> set ss \<Longrightarrow> r \<in> set ss \<Longrightarrow>
     id_slot s = id_slot r \<Longrightarrow> s = r"
  by (meson distinct_map inj_onD)

lemma map_fixed: "(\<And>x. x \<in> set xs \<Longrightarrow> f x = x) \<Longrightarrow> map f xs = xs"
  by (induction xs) simp_all

lemma redrop_stores:
  assumes ok: "lists_ok st" and d: "distinct (map id_item (items st))"
    and ds: "distinct (map id_slot (slots st))"
    and s: "s \<in> set (slots st)" and x: "x \<in> set (items_slot s)"
    and t: "id_slot t = id_slot s"
  shows "items (handleDragEnd cfg \<lparr>active = id_item x, over = Some (OverSlot t)\<rparr> st) = items st"
    and "slots (handleDragEnd cfg \<lparr>active = id_item x, over = Some (OverSlot t)\<rparr> st) = slots st"
proof -
  note x' = lists_ok_member[OF ok s x]
  from x' have xin: "x \<in> set (items st)" and xs: "slotId x = Some (id_slot s)" by simp_all
  have found: "find (\<lambda>item. id_item item = id_item x) (items st) = Some x"
    by (rule find_by_id[OF d xin])
  have its: "(if id_item i = id_item x then i\<lparr>slotId := Some (id_slot t)\<rparr> else i) = i"
    if "i \<in> set (items st)" for i
  proof (cases "id_item i = id_item x")
    case True
    from same_id_same_item[OF d that xin True] xs t show ?thesis by simp
  next
    case False
    then show ?thesis by simp
  qed
  have sl: "updateSlot cfg x t r = r" if r: "r \<in> set (slots st)" for r
  proof (cases "id_slot r = id_slot t")
    case True
    with t same_id_same_slot[OF ds r s] have "r = s" by simp
    with x True show ?thesis by (auto simp: updateSlot_def Let_def list_ex_iff)
  next
    case False
    have "id_item y \<noteq> id_item x" if y: "y \<in> set (items_slot r)" for y
    proof
      assume e: "id_item y = id_item x"
      from lists_ok_member[OF ok r y] have "y \<in> set (items st)" "slotId y = Some (id_slot r)"
        by simp_all
      with same_id_same_item[OF d this(1) xin e] xs t False show False by simp
    qed
    then have "filter (\<lambda>item. id_item item \<noteq> id_item x) (items_slot r) = items_slot r"
      by (simp add: filter_id_conv)
    with False show ?thesis by (simp add: updateSlot_def)
  qed
  show "items (handleDragEnd cfg \<lparr>active = id_item x, over = Some (OverSlot t)\<rparr> st) = items st"
    using found map_fixed[of "items st", OF its] by (simp add: handleDragEnd_def)
  show "slots (handleDragEnd cfg \<lparr>active = id_item x, over = Some (OverSlot t)\<rparr> st) = slots st"
    using found map_fixed[of "slots st", OF sl] by (simp add: handleDragEnd_def)
qed

text \<open>
  Claim C4. In a reachable state, for an item that is in the list of a slot \<open>S\<close> of
  the Slot Store, assigning the item to \<open>S\<close> again (a drop of its id on a target with
  the id of \<open>S\<close>) gives an Item Store and a Slot Store equal to the ones before, under
  either setting of the limit.
\<close>

theorem redrop_idempotent:
  assumes "reachable cfg st" and "s \<in> set (slots st)" and "x \<in> set (items_slot s)"
    and "id_slot t = id_slot s"
  shows "items (handleDragEnd cfg \<lparr>active = id_item x, over = Some (OverSlot t)\<rparr> st) = items st \<and>
    slots (handleDragEnd cfg \<lparr>active = id_item x, over = Some (OverSlot t)\<rparr> st) = slots st"
  using redrop_stores[OF reachable_lists_ok[OF assms(1)] reachable_distinct_items[OF assms(1)]
      reachable_distinct_slots[OF assms(1)] assms(2,3,4)]
  by simp

lemma reachable_state_full: "reachable cfg_on state_full"
  unfolding state_full_def Let_def
  by (intro reachable.assign reachable.start; code_simp)

theorem redrop_idempotent_witness:
  "reachable cfg_on state_full \<and>
   slots state_full ! 0 \<in> set (slots state_full) \<and>
   items state_full ! 1 \<in> set (items_slot (slots state_full ! 0)) \<and>
   id_item (items state_full ! 1) = ''2'' \<and>
   items (handleDragEnd cfg_on (dropOn ''2'' 0 state_full) state_full) = items state_full \<and>
   slots (handleDragEnd cfg_on (dropOn ''2'' 0 state_full) state_full) = slots state_full"
proof -
  have s: "slots state_full ! 0 \<in> set (slots state_full)"
    and x: "items state_full ! 1 \<in> set (items_slot (slots state_full ! 0))"
    and i: "id_item (items state_full ! 1) = ''2''"
    by code_simp+
  have e: "\<lparr>active = id_item (items state_full ! 1),
            over = Some (OverSlot (slots state_full ! 0))\<rparr> = dropOn ''2'' 0 state_full"
    unfolding dropOn_def i ..
  show ?thesis
    using redrop_idempotent[OF reachable_state_full s x refl] reachable_state_full s x i
    unfolding e by blast
qed

subsection \<open>Assigning an item to a slot with room\<close>

lemma updateSlot_target:
  assumes "id_item a \<notin> set (map id_item (items_slot t))"
    and "\<not> ENABLE_SLOT_LIMIT cfg \<or> int (length (items_slot t)) < MAX_ITEMS_PER_SLOT cfg"
  shows "updateSlot cfg a t t = t\<lparr>items_slot := items_slot t @ [a\<lparr>slotId := Some (id_slot t)\<rparr>]\<rparr>"
proof -
  have "\<not> list_ex (\<lambda>item. id_item item = id_item a) (items_slot t)"
  proof
    assume "list_ex (\<lambda>item. id_item item = id_item a) (items_slot t)"
    then obtain x where "x \<in> set (items_slot t)" "id_item x = id_item a"
      by (auto simp: list_ex_iff)
    then have "id_item a \<in> id_item ` set (items_slot t)" by (metis imageI)
    with assms(1) show False by simp
  qed
  with assms(2) show ?thesis
    by (auto simp: updateSlot_def Let_def)
qed

lemma updateSlot_other:
  "id_slot s \<noteq> id_slot t \<Longrightarrow>
     updateSlot cfg a t s =
       s\<lparr>items_slot := filter (\<lambda>item. id_item item \<noteq> id_item a) (items_slot s)\<rparr>"
  by (simp add: updateSlot_def)

text \<open>
  Claim C3. Let the item id be the id of an item of the Item Store, let the target be
  a slot of the Slot Store (whose slot ids are distinct, as they are in every
  reachable state) that does not hold the item, and let the limit be off or the
  target hold fewer items than the maximum. Then after the assignment: in the Item
  Store exactly the items with that id have \<open>slotId\<close> set to the target's id and all
  others are as before; in the Slot Store the target has the item, with \<open>slotId\<close> set
  to the target's id, appended at the end of its list; every other slot has lost the
  elements with that id and nothing else, so it does not hold the item any more and
  is unchanged if it did not hold it; ids, names and the order of the slots are as
  before.
\<close>

theorem assign_moves_item:
  assumes found: "find (\<lambda>item. id_item item = itemId) (items st) = Some a"
    and target: "t \<in> set (slots st)"
    and ids: "distinct (map id_slot (slots st))"
    and fresh: "itemId \<notin> set (map id_item (items_slot t))"
    and room: "\<not> ENABLE_SLOT_LIMIT cfg \<or> int (length (items_slot t)) < MAX_ITEMS_PER_SLOT cfg"
    and st': "st' = handleDragEnd cfg \<lparr>active = itemId, over = Some (OverSlot t)\<rparr> st"
  shows "length (items st') = length (items st) \<and>
    (\<forall>k < length (items st).
       items st' ! k =
         (if id_item (items st ! k) = itemId
          then (items st ! k)\<lparr>slotId := Some (id_slot t)\<rparr> else items st ! k)) \<and>
    length (slots st') = length (slots st) \<and>
    (\<forall>j < length (slots st).
       slots st' ! j =
         (if slots st ! j = t
          then t\<lparr>items_slot := items_slot t @ [a\<lparr>slotId := Some (id_slot t)\<rparr>]\<rparr>
          else (slots st ! j)\<lparr>items_slot :=
                 filter (\<lambda>x. id_item x \<noteq> itemId) (items_slot (slots st ! j))\<rparr>)) \<and>
    (\<forall>j < length (slots st). slots st ! j \<noteq> t \<longrightarrow>
       itemId \<notin> set (map id_item (items_slot (slots st' ! j)))) \<and>
    (\<forall>j < length (slots st).
       slots st ! j \<noteq> t \<and> itemId \<notin> set (map id_item (items_slot (slots st ! j))) \<longrightarrow>
       slots st' ! j = slots st ! j) \<and>
    a \<in> set (items st) \<and> id_item a = itemId"
proof -
  from find_active[OF found] have a: "a \<in> set (items st)" "id_item a = itemId" by simp_all
  have its: "items st' =
      map (\<lambda>item. if id_item item = itemId
                   then item\<lparr>slotId := Some (id_slot t)\<rparr> else item) (items st)"
    and sls: "slots st' = map (updateSlot cfg a t) (slots st)"
    unfolding st' using found a by (simp_all add: handleDragEnd_def)
  have tgt: "updateSlot cfg a t t =
      t\<lparr>items_slot := items_slot t @ [a\<lparr>slotId := Some (id_slot t)\<rparr>]\<rparr>"
    using fresh room a by (intro updateSlot_target) simp_all
  have oth: "updateSlot cfg a t (slots st ! j) =
      (slots st ! j)\<lparr>items_slot :=
         filter (\<lambda>x. id_item x \<noteq> itemId) (items_slot (slots st ! j))\<rparr>"
    if j: "j < length (slots st)" and ne: "slots st ! j \<noteq> t" for j
  proof -
    from j have "slots st ! j \<in> set (slots st)" by simp
    from same_id_same_slot[OF ids this target] ne
    have "id_slot (slots st ! j) \<noteq> id_slot t" by blast
    then show ?thesis using a by (simp add: updateSlot_other)
  qed
  have c1: "length (items st') = length (items st)" unfolding its by simp
  have c2: "\<forall>k < length (items st).
       items st' ! k =
         (if id_item (items st ! k) = itemId
          then (items st ! k)\<lparr>slotId := Some (id_slot t)\<rparr> else items st ! k)"
    unfolding its by simp
  have c3: "length (slots st') = length (slots st)" unfolding sls by simp
  have c4: "\<forall>j < length (slots st).
       slots st' ! j =
         (if slots st ! j = t
          then t\<lparr>items_slot := items_slot t @ [a\<lparr>slotId := Some (id_slot t)\<rparr>]\<rparr>
          else (slots st ! j)\<lparr>items_slot :=
                 filter (\<lambda>x. id_item x \<noteq> itemId) (items_slot (slots st ! j))\<rparr>)"
    unfolding sls using tgt oth by simp
  have c5: "\<forall>j < length (slots st). slots st ! j \<noteq> t \<longrightarrow>
       itemId \<notin> set (map id_item (items_slot (slots st' ! j)))"
    using c4 by auto
  have c6: "\<forall>j < length (slots st).
       slots st ! j \<noteq> t \<and> itemId \<notin> set (map id_item (items_slot (slots st ! j))) \<longrightarrow>
       slots st' ! j = slots st ! j"
    using c4 by (simp add: filter_absent_id)
  from c1 c2 c3 c4 c5 c6 a show ?thesis by (intro conjI)
qed

theorem assign_moves_item_witness:
  "find (\<lambda>item. id_item item = ''3'') (items state3) =
     Some \<lparr>id_item = ''3'', content = ''Task 3'', slotId = Some ''slot-1''\<rparr> \<and>
   slots state3 ! 1 \<in> set (slots state3) \<and>
   distinct (map id_slot (slots state3)) \<and>
   ''3'' \<notin> set (map id_item (items_slot (slots state3 ! 1))) \<and>
   slots state3 ! 0 = \<lparr>id_slot = ''slot-1'', name_slot = ''Slot 1'', items_slot =
      [\<lparr>id_item = ''3'', content = ''Task 3'', slotId = Some ''slot-1''\<rparr>]\<rparr> \<and>
   slots (handleDragEnd cfg_off (dropOn ''3'' 1 state3) state3) =
     [\<lparr>id_slot = ''slot-1'', name_slot = ''Slot 1'', items_slot = []\<rparr>,
      \<lparr>id_slot = ''slot-2'', name_slot = ''Slot 2'', items_slot =
         [\<lparr>id_item = ''3'', content = ''Task 3'', slotId = Some ''slot-2''\<rparr>]\<rparr>] \<and>
   items (handleDragEnd cfg_off (dropOn ''3'' 1 state3) state3) ! 2 =
     \<lparr>id_item = ''3'', content = ''Task 3'', slotId = Some ''slot-2''\<rparr> \<and>
   length (unassignedItems (handleDragEnd cfg_off (dropOn ''3'' 1 state3) state3)) = 9"
proof -
  have found: "find (\<lambda>item. id_item item = ''3'') (items state3) =
     Some \<lparr>id_item = ''3'', content = ''Task 3'', slotId = Some ''slot-1''\<rparr>"
    and target: "slots state3 ! 1 \<in> set (slots state3)"
    and ids: "distinct (map id_slot (slots state3))"
    and fresh: "''3'' \<notin> set (map id_item (items_slot (slots state3 ! 1)))"
    by code_simp+
  have room: "\<not> ENABLE_SLOT_LIMIT cfg_off \<or>
      int (length (items_slot (slots state3 ! 1))) < MAX_ITEMS_PER_SLOT cfg_off"
    by (simp add: cfg_off_def)
  have e: "handleDragEnd cfg_off (dropOn ''3'' 1 state3) state3 =
      handleDragEnd cfg_off \<lparr>active = ''3'', over = Some (OverSlot (slots state3 ! 1))\<rparr> state3"
    unfolding dropOn_def ..
  have vals: "slots state3 ! 0 = \<lparr>id_slot = ''slot-1'', name_slot = ''Slot 1'', items_slot =
      [\<lparr>id_item = ''3'', content = ''Task 3'', slotId = Some ''slot-1''\<rparr>]\<rparr>"
    "slots (handleDragEnd cfg_off (dropOn ''3'' 1 state3) state3) =
     [\<lparr>id_slot = ''slot-1'', name_slot = ''Slot 1'', items_slot = []\<rparr>,
      \<lparr>id_slot = ''slot-2'', name_slot = ''Slot 2'', items_slot =
         [\<lparr>id_item = ''3'', content = ''Task 3'', slotId = Some ''slot-2''\<rparr>]\<rparr>]"
    "items (handleDragEnd cfg_off (dropOn ''3'' 1 state3) state3) ! 2 =
     \<lparr>id_item = ''3'', content = ''Task 3'', slotId = Some ''slot-2''\<rparr>"
    "length (unassignedItems (handleDragEnd cfg_off (dropOn ''3'' 1 state3) state3)) = 9"
    by code_simp+
  show ?thesis
    using assign_moves_item[OF found target ids fresh room e] found target ids fresh vals
    by blast
qed

subsection \<open>A drop on a full slot\<close>

text \<open>
  Claim C2 (the code departs from it). With the limit on and a maximum of 2, the
  first slot holds items 1 and 2 and the second holds item 3. Dropping item 3 on the
  full first slot leaves the first slot's list as it is, but the item's \<open>slotId\<close> in
  the Item Store becomes the first slot's id and the item is removed from the second
  slot's list: both stores have changed, and the item is in no list.
\<close>

theorem drop_on_full_slot_changes_stores:
  "ENABLE_SLOT_LIMIT cfg_on \<and> MAX_ITEMS_PER_SLOT cfg_on = 2 \<and>
   map (\<lambda>s. (id_slot s, map id_item (items_slot s))) (slots state_full) =
     [(''slot-1'', [''1'', ''2'']), (''slot-2'', [''3''])] \<and>
   items state_full ! 2 = \<lparr>id_item = ''3'', content = ''Task 3'', slotId = Some ''slot-2''\<rparr> \<and>
   map (\<lambda>s. (id_slot s, map id_item (items_slot s)))
     (slots (handleDragEnd cfg_on (dropOn ''3'' 0 state_full) state_full)) =
     [(''slot-1'', [''1'', ''2'']), (''slot-2'', [])] \<and>
   items (handleDragEnd cfg_on (dropOn ''3'' 0 state_full) state_full) ! 2 =
     \<lparr>id_item = ''3'', content = ''Task 3'', slotId = Some ''slot-1''\<rparr> \<and>
   items (handleDragEnd cfg_on (dropOn ''3'' 0 state_full) state_full) \<noteq> items state_full \<and>
   slots (handleDragEnd cfg_on (dropOn ''3'' 0 state_full) state_full) \<noteq> slots state_full"
  by code_simp

text \<open>
  Claim C1 (the code departs from it). With the limit on and a maximum of 2, after
  items 1 and 2 were dropped on the first slot and item 3 on the second, dropping
  item 3 on the full first slot gives a reachable state in which item 3 has the
  \<open>slotId\<close> of the first slot and is in no slot's list.
\<close>

theorem sync_broken_by_full_slot:
  "reachable cfg_on (handleDragEnd cfg_on (dropOn ''3'' 0 state_full) state_full) \<and>
   slotId (items (handleDragEnd cfg_on (dropOn ''3'' 0 state_full) state_full) ! 2) =
     Some ''slot-1'' \<and>
   holders ''3'' (handleDragEnd cfg_on (dropOn ''3'' 0 state_full) state_full) = [] \<and>
   \<not> store_sync (handleDragEnd cfg_on (dropOn ''3'' 0 state_full) state_full)"
proof -
  have "droppable state_full (over (dropOn ''3'' 0 state_full))"
    by code_simp
  from reachable.assign[OF reachable_state_full this]
  have r: "reachable cfg_on (handleDragEnd cfg_on (dropOn ''3'' 0 state_full) state_full)" .
  have "slotId (items (handleDragEnd cfg_on (dropOn ''3'' 0 state_full) state_full) ! 2) =
     Some ''slot-1''"
    "holders ''3'' (handleDragEnd cfg_on (dropOn ''3'' 0 state_full) state_full) = []"
    "\<not> store_sync (handleDragEnd cfg_on (dropOn ''3'' 0 state_full) state_full)"
    by code_simp+
  with r show ?thesis by (intro conjI)
qed

subsection \<open>With the limit off the two stores stay in sync\<close>

lemma assigned_ok_iff:
  "assigned_ok st \<longleftrightarrow>
     (\<forall>i \<in> set (items st). \<forall>sid. slotId i = Some sid \<longrightarrow>
        (\<exists>s \<in> set (slots st). id_slot s = sid \<and> i \<in> set (items_slot s)))"
  by (auto simp: assigned_ok_def list_all_iff list_ex_iff split: option.splits)

lemma assigned_okI:
  assumes "\<And>i sid. i \<in> set (items st) \<Longrightarrow> slotId i = Some sid \<Longrightarrow>
             \<exists>s \<in> set (slots st). id_slot s = sid \<and> i \<in> set (items_slot s)"
  shows "assigned_ok st"
  using assms unfolding assigned_ok_iff by blast

lemma assigned_okD:
  assumes "assigned_ok st" and "i \<in> set (items st)" and "slotId i = Some sid"
  obtains s where "s \<in> set (slots st)" "id_slot s = sid" "i \<in> set (items_slot s)"
  using assms unfolding assigned_ok_iff by blast

lemma assigned_ok_stores:
  "items st' = items st \<Longrightarrow> slots st' = slots st \<Longrightarrow> assigned_ok st' = assigned_ok st"
  by (simp add: assigned_ok_iff)

lemma updateSlot_keeps:
  "i \<in> set (items_slot s) \<Longrightarrow> id_item i \<noteq> id_item a \<Longrightarrow>
     i \<in> set (items_slot (updateSlot cfg a t s))"
  by (simp add: updateSlot_def Let_def)

lemma updateSlot_holds_active:
  assumes off: "\<not> ENABLE_SLOT_LIMIT cfg" and s: "id_slot s = id_slot t"
    and a: "a \<in> set xs" and d: "distinct (map id_item xs)" and ok: "slot_ok xs s"
  shows "a\<lparr>slotId := Some (id_slot t)\<rparr> \<in> set (items_slot (updateSlot cfg a t s))"
proof (cases "list_ex (\<lambda>item. id_item item = id_item a) (items_slot s)")
  case True
  then obtain x where x: "x \<in> set (items_slot s)" "id_item x = id_item a"
    by (auto simp: list_ex_iff)
  with ok have x': "x \<in> set xs" "slotId x = Some (id_slot s)" by (simp_all add: slot_ok_iff)
  from same_id_same_item[OF d x'(1) a x(2)] have "x = a" .
  with x x' s have "a\<lparr>slotId := Some (id_slot t)\<rparr> = a" "a \<in> set (items_slot s)" by simp_all
  with True s show ?thesis by (simp add: updateSlot_def Let_def)
next
  case False
  with off s show ?thesis by (simp add: updateSlot_def Let_def)
qed

lemma assigned_ok_handleDragEnd:
  assumes off: "\<not> ENABLE_SLOT_LIMIT cfg"
    and asg: "assigned_ok st" and ok: "lists_ok st"
    and d: "distinct (map id_item (items st))"
    and tgt: "droppable st (over e)"
  shows "assigned_ok (handleDragEnd cfg e st)"
proof (cases rule: handleDragEnd_cases[of cfg e st])
  case ignored
  from asg show ?thesis unfolding assigned_ok_stores[OF ignored] .
next
  case (dropped a t)
  from find_active[OF dropped(1)] have a: "a \<in> set (items st)" by simp
  from tgt dropped(2) obtain s0 where s0: "s0 \<in> set (slots st)" "id_slot s0 = id_slot t"
    by (auto simp: droppable_def)
  from ok s0 have ok0: "slot_ok (items st) s0" by (simp add: lists_ok_iff)
  show ?thesis
  proof (rule assigned_okI)
    fix i' sid
    assume "i' \<in> set (items (handleDragEnd cfg e st))" and sid: "slotId i' = Some sid"
    then obtain i where i: "i \<in> set (items st)"
      and i': "i' = (if id_item i = id_item a then i\<lparr>slotId := Some (id_slot t)\<rparr> else i)"
      unfolding dropped(3) set_map by blast
    have "\<exists>s \<in> set (slots st). id_slot (updateSlot cfg a t s) = sid \<and>
            i' \<in> set (items_slot (updateSlot cfg a t s))"
    proof (cases "id_item i = id_item a")
      case True
      from same_id_same_item[OF d i a True] have ia: "i = a" .
      from i' True ia have e: "i' = a\<lparr>slotId := Some (id_slot t)\<rparr>" by simp
      from sid have "sid = id_slot t" unfolding e by simp
      then have "id_slot (updateSlot cfg a t s0) = sid" using s0(2) by simp
      moreover have "i' \<in> set (items_slot (updateSlot cfg a t s0))"
        unfolding e by (rule updateSlot_holds_active[OF off s0(2) a d ok0])
      ultimately show ?thesis using s0(1) by blast
    next
      case False
      from i' False have e: "i' = i" by simp
      from assigned_okD[OF asg i sid[unfolded e]]
      obtain s where s: "s \<in> set (slots st)" "id_slot s = sid" "i \<in> set (items_slot s)" .
      have "id_slot (updateSlot cfg a t s) = sid" using s(2) by simp
      moreover have "i' \<in> set (items_slot (updateSlot cfg a t s))"
        unfolding e by (rule updateSlot_keeps[OF s(3) False])
      ultimately show ?thesis using s(1) by blast
    qed
    then obtain s where "s \<in> set (slots st)" "id_slot (updateSlot cfg a t s) = sid"
      "i' \<in> set (items_slot (updateSlot cfg a t s))" by blast
    moreover from this(1) have "updateSlot cfg a t s \<in> set (slots (handleDragEnd cfg e st))"
      unfolding dropped(4) by simp
    ultimately show "\<exists>s \<in> set (slots (handleDragEnd cfg e st)).
        id_slot s = sid \<and> i' \<in> set (items_slot s)"
      by blast
  qed
qed

lemma assigned_ok_addMoreSlots: "assigned_ok st \<Longrightarrow> assigned_ok (addMoreSlots st)"
  by (auto simp: assigned_ok_iff slots_addMoreSlots)

lemma assigned_ok_handleDragStart: "assigned_ok st \<Longrightarrow> assigned_ok (handleDragStart e st)"
  using assigned_ok_stores[of "handleDragStart e st" st] by simp

lemma assigned_ok_removeItemFromSlot:
  assumes asg: "assigned_ok st"
  shows "assigned_ok (removeItemFromSlot itemId st)"
proof (rule assigned_okI)
  fix i' sid
  assume "i' \<in> set (items (removeItemFromSlot itemId st))" and sid: "slotId i' = Some sid"
  then obtain i where i: "i \<in> set (items st)"
    and i': "i' = (if id_item i = itemId then i\<lparr>slotId := None\<rparr> else i)"
    by (auto simp: removeItemFromSlot_def)
  from sid i' have ne: "id_item i \<noteq> itemId" and e: "i' = i"
    by (simp_all split: if_splits)
  from assigned_okD[OF asg i sid[unfolded e]]
  obtain s where s: "s \<in> set (slots st)" "id_slot s = sid" "i \<in> set (items_slot s)" .
  let ?s' = "s\<lparr>items_slot := filter (\<lambda>item. id_item item \<noteq> itemId) (items_slot s)\<rparr>"
  from s(1) have "?s' \<in> set (slots (removeItemFromSlot itemId st))"
    by (simp add: removeItemFromSlot_def)
  moreover from s ne e have "id_slot ?s' = sid \<and> i' \<in> set (items_slot ?s')" by simp
  ultimately show "\<exists>s \<in> set (slots (removeItemFromSlot itemId st)).
      id_slot s = sid \<and> i' \<in> set (items_slot s)" by blast
qed

lemma assigned_ok_removeTwoSlots:
  assumes asg: "assigned_ok st"
  shows "assigned_ok (removeTwoSlots st)"
proof (cases "length (slots st) \<le> 2")
  case True
  with asg show ?thesis by (simp add: removeTwoSlots_def)
next
  case False
  define n where "n = length (slots st) - 2"
  define gone where
    "gone = concat (map (\<lambda>slot. map id_item (items_slot slot)) (drop n (slots st)))"
  define clr where
    "clr = (\<lambda>item::Item. if id_item item \<in> set gone then item\<lparr>slotId := None\<rparr> else item)"
  have st': "items (removeTwoSlots st) = map clr (items st)"
    "slots (removeTwoSlots st) = take n (slots st)"
    using False by (simp_all add: removeTwoSlots_def Let_def clr_def gone_def n_def)
  show ?thesis
  proof (rule assigned_okI)
    fix i' sid
    assume "i' \<in> set (items (removeTwoSlots st))" and sid: "slotId i' = Some sid"
    then obtain i where i: "i \<in> set (items st)" and i': "i' = clr i"
      unfolding st' by auto
    from sid i' have ng: "id_item i \<notin> set gone" and e: "i' = i"
      by (simp_all add: clr_def split: if_splits)
    from assigned_okD[OF asg i sid[unfolded e]]
    obtain s where s: "s \<in> set (slots st)" "id_slot s = sid" "i \<in> set (items_slot s)" .
    have "s \<notin> set (drop n (slots st))"
    proof
      assume "s \<in> set (drop n (slots st))"
      with s(3) have "id_item i \<in> set gone" by (auto simp: gone_def)
      with ng show False ..
    qed
    moreover from s(1) have "s \<in> set (take n (slots st) @ drop n (slots st))" by simp
    ultimately have "s \<in> set (take n (slots st))"
      unfolding set_append by blast
    with s e show "\<exists>s \<in> set (slots (removeTwoSlots st)).
        id_slot s = sid \<and> i' \<in> set (items_slot s)"
      unfolding st' by blast
  qed
qed

lemma assigned_ok_initial: "assigned_ok initialState"
  by (simp add: assigned_ok_def initialState_def initialItems_def)

lemma reachable_assigned_ok:
  assumes off: "\<not> ENABLE_SLOT_LIMIT cfg"
  shows "reachable cfg st \<Longrightarrow> assigned_ok st"
proof (induction rule: reachable.induct)
  case start
  show ?case by (rule assigned_ok_initial)
next
  case (dragStart st event)
  then show ?case by (simp add: assigned_ok_handleDragStart)
next
  case (assign st event)
  then show ?case
    by (simp add: assigned_ok_handleDragEnd[OF off] reachable_lists_ok reachable_distinct_items)
next
  case (addSlots st)
  then show ?case by (simp add: assigned_ok_addMoreSlots)
next
  case (removeSlots st)
  then show ?case by (simp add: assigned_ok_removeTwoSlots)
next
  case (unassign st itemId)
  then show ?case by (simp add: assigned_ok_removeItemFromSlot)
qed

lemma filter_the_one: "distinct ys \<Longrightarrow> v \<in> set ys \<Longrightarrow> filter (\<lambda>w. w = v) ys = [v]"
  by (induction ys) (auto simp: filter_empty_conv)

lemma synced_from_invariants:
  assumes ok: "lists_ok st" and asg: "assigned_ok st"
    and d: "distinct (map id_item (items st))" and ds: "distinct (map id_slot (slots st))"
  shows "store_sync st"
proof -
  have "map id_slot (holders (id_item i) st) = [sid]"
    if i: "i \<in> set (items st)" and sid: "slotId i = Some sid" for i sid
  proof -
    from asg i sid obtain s0 where s0: "s0 \<in> set (slots st)" "id_slot s0 = sid"
      "i \<in> set (items_slot s0)"
      by (auto simp: assigned_ok_iff)
    have holds: "list_ex (\<lambda>x. id_item x = id_item i) (items_slot s) \<longleftrightarrow> id_slot s = sid"
      if s: "s \<in> set (slots st)" for s
    proof
      assume "list_ex (\<lambda>x. id_item x = id_item i) (items_slot s)"
      then obtain x where x: "x \<in> set (items_slot s)" "id_item x = id_item i"
        by (auto simp: list_ex_iff)
      from lists_ok_member[OF ok s x(1)] have x': "x \<in> set (items st)"
        "slotId x = Some (id_slot s)" by simp_all
      from same_id_same_item[OF d x'(1) i x(2)] x' sid show "id_slot s = sid" by simp
    next
      assume "id_slot s = sid"
      with same_id_same_slot[OF ds s s0(1)] s0 have "s = s0" by simp
      with s0 show "list_ex (\<lambda>x. id_item x = id_item i) (items_slot s)"
        by (auto simp: list_ex_iff)
    qed
    have "holders (id_item i) st = filter (\<lambda>s. id_slot s = sid) (slots st)"
      unfolding holders_def using holds by (intro filter_cong refl)
    then have "map id_slot (holders (id_item i) st) =
        filter (\<lambda>w. w = sid) (map id_slot (slots st))"
      by (simp add: filter_map comp_def)
    also have "\<dots> = [sid]"
      using s0 by (intro filter_the_one[OF ds]) auto
    finally show ?thesis .
  qed
  then show ?thesis
    by (auto simp: store_sync_def list_all_iff item_synced_def split: option.splits)
qed

text \<open>
  With the limit off, in every reachable state every item with a \<open>slotId\<close> is in the
  list of exactly one slot, the slot with that id.
\<close>

lemma store_sync_limit_off:
  assumes "\<not> ENABLE_SLOT_LIMIT cfg" and "reachable cfg st"
  shows "store_sync st"
  using assms
  by (intro synced_from_invariants reachable_lists_ok reachable_assigned_ok
      reachable_distinct_items reachable_distinct_slots)


end
